theory Spec2Isabelle
  imports Main "HOL-Library.Word" "HOL-Library.Sublist"
begin

section \<open>Values passed through \<^verbatim>\<open>interface{}\<close>\<close>

text \<open>
  The logger receives keys and values as Go \<^verbatim>\<open>interface{}\<close>. The source inspects such a
  value in three ways only: it uses it as a map key (\<^verbatim>\<open>seenKeys[k]\<close>), it switches on its
  dynamic type (\<^verbatim>\<open>string\<close>, \<^verbatim>\<open>error\<close>, \<^verbatim>\<open>fmt.Stringer\<close>, anything else), and it hands it
  to \<^verbatim>\<open>fmt.Sprintf\<close>. The datatype below has one constructor per category that these three
  uses can tell apart.

  \<^item> \<open>VNil\<close>: the nil interface value.
  \<^item> \<open>VString s\<close>: a Go string.
  \<^item> \<open>VInt w\<close>: a Go \<^verbatim>\<open>int\<close> (64 bit, read as two's complement by \<open>sint\<close>).
  \<^item> \<open>VError i m\<close>: a comparable non-nil error; \<open>i\<close> is its identity under \<^verbatim>\<open>==\<close>
    (two errors with the same message need not be equal), \<open>m\<close> is what \<^verbatim>\<open>Error()\<close> returns.
  \<^item> \<open>VStringer i s\<close>: a comparable value that is no error and implements
    \<^verbatim>\<open>fmt.Stringer\<close>; \<open>s\<close> is what \<^verbatim>\<open>String()\<close> returns.
  \<^item> \<open>VOther i s t\<close>: any other comparable value; \<open>s\<close> is its \<^verbatim>\<open>%s\<close> text and \<open>t\<close> its
    \<^verbatim>\<open>%+v\<close> text.
  \<^item> \<open>VUncomparable s t\<close>: a value whose dynamic type is not comparable (a slice, a map,
    a function), with its \<^verbatim>\<open>%s\<close> and \<^verbatim>\<open>%+v\<close> texts. Go panics when such a value is hashed.

  The identity \<open>i\<close> of an error, a \<^verbatim>\<open>fmt.Stringer\<close> or another value is all that \<^verbatim>\<open>==\<close> sees
  of it: two such values are \<^verbatim>\<open>==\<close> exactly when they have the same category and the same
  identity, whatever their texts are. The floats \<^verbatim>\<open>+0\<close> and \<^verbatim>\<open>-0\<close> are \<^verbatim>\<open>==\<close> and print
  differently: they have one identity and two texts. A NaN is \<^verbatim>\<open>==\<close> to nothing, itself
  included: each occurrence of a NaN has an identity of its own.
\<close>

type_synonym go_int = "64 word"

datatype val =
    VNil
  | VString string
  | VInt go_int
  | VError nat string
  | VStringer nat string
  | VOther nat string string
  | VUncomparable string string

fun hashable :: "val \<Rightarrow> bool" where
  "hashable (VUncomparable s t) = False"
| "hashable v = True"

text \<open>The key under which a Go map files a value: the value without its texts, so that two
  values have the same key exactly when they are \<^verbatim>\<open>==\<close>.\<close>

fun key_of :: "val \<Rightarrow> val" where
  "key_of (VError i m) = VError i []"
| "key_of (VStringer i s) = VStringer i []"
| "key_of (VOther i s t) = VOther i [] []"
| "key_of v = v"

datatype panic = HashOfUnhashableType | IndexOutOfRange


section \<open>The part of package \<^verbatim>\<open>fmt\<close> the logger calls\<close>


fun digits :: "nat \<Rightarrow> string" where
  "digits n =
     (if n < 10 then [''0123456789'' ! n]
      else digits (n div 10) @ [''0123456789'' ! (n mod 10)])"

declare digits.simps [simp del]

definition fmt_int :: "int \<Rightarrow> string" where
  "fmt_int i = (if i < 0 then ''-'' @ digits (nat (- i)) else digits (nat i))"

definition hex2 :: "nat \<Rightarrow> string" where
  "hex2 n = [''0123456789abcdef'' ! (n div 16), ''0123456789abcdef'' ! (n mod 16)]"

definition quote_byte :: "char \<Rightarrow> string" where
  "quote_byte c =
     (if c = CHR 0x22 then [CHR 0x5C, CHR 0x22]
      else if c = CHR 0x5C then [CHR 0x5C, CHR 0x5C]
      else if c = CHR 0x07 then [CHR 0x5C, CHR ''a'']
      else if c = CHR 0x08 then [CHR 0x5C, CHR ''b'']
      else if c = CHR 0x0C then [CHR 0x5C, CHR ''f'']
      else if c = CHR 0x0A then [CHR 0x5C, CHR ''n'']
      else if c = CHR 0x0D then [CHR 0x5C, CHR ''r'']
      else if c = CHR 0x09 then [CHR 0x5C, CHR ''t'']
      else if c = CHR 0x0B then [CHR 0x5C, CHR ''v'']
      else if (of_char c :: nat) < 32 \<or> (of_char c :: nat) = 127
        then [CHR 0x5C, CHR ''x''] @ hex2 (of_char c)
      else [c])"

definition Quote :: "string \<Rightarrow> string" where
  "Quote s = [CHR 0x22] @ concat (map quote_byte s) @ [CHR 0x22]"

fun verb_s :: "val \<Rightarrow> string" where
  "verb_s VNil = ''%!s(<nil>)''"
| "verb_s (VString s) = s"
| "verb_s (VInt w) = ''%!s(int='' @ fmt_int (sint w) @ '')''"
| "verb_s (VError i m) = m"
| "verb_s (VStringer i s) = s"
| "verb_s (VOther i s t) = s"
| "verb_s (VUncomparable s t) = s"

fun verb_plus_v :: "val \<Rightarrow> string" where
  "verb_plus_v VNil = ''<nil>''"
| "verb_plus_v (VString s) = s"
| "verb_plus_v (VInt w) = fmt_int (sint w)"
| "verb_plus_v (VError i m) = m"
| "verb_plus_v (VStringer i s) = s"
| "verb_plus_v (VOther i s t) = t"
| "verb_plus_v (VUncomparable s t) = t"

text \<open>\<^verbatim>\<open>fmt.Sprintf("%s=%q", k, v)\<close>, where \<open>txt\<close> is the text of \<open>v\<close>: the string itself, the
  result of \<^verbatim>\<open>Error()\<close> or the result of \<^verbatim>\<open>String()\<close>.\<close>

definition Sprintf_s_q :: "val \<Rightarrow> string \<Rightarrow> string" where
  "Sprintf_s_q k txt = verb_s k @ ''='' @ Quote txt"

text \<open>\<^verbatim>\<open>fmt.Sprintf("%s=%+v", k, v)\<close>.\<close>

definition Sprintf_s_plus_v :: "val \<Rightarrow> val \<Rightarrow> string" where
  "Sprintf_s_plus_v k v = verb_s k @ ''='' @ verb_plus_v v"


section \<open>The value formatter\<close>

definition missingValue :: string where
  "missingValue = ''(MISSING)''"

text \<open>
  The loop of \<^verbatim>\<open>kvListFormat\<close>: \<open>i\<close> is the loop index, \<open>b\<close> the buffer. The type switch has
  the source's order: string or error first, then the \<^verbatim>\<open>fmt.Stringer\<close> test of the default
  branch, then \<^verbatim>\<open>%+v\<close>.
\<close>

function kvListFormat_loop :: "val list \<Rightarrow> nat \<Rightarrow> string \<Rightarrow> string" where
  "kvListFormat_loop keysAndValues i b =
     (if i < length keysAndValues then
        let k = keysAndValues ! i;
            v = (if i + 1 < length keysAndValues then keysAndValues ! (i + 1)
                 else VString missingValue);
            b1 = (if i > 0 then b @ '' '' else b);
            b2 = (case v of
                    VString s \<Rightarrow> b1 @ Sprintf_s_q k s
                  | VError e m \<Rightarrow> b1 @ Sprintf_s_q k m
                  | VStringer e s \<Rightarrow> b1 @ Sprintf_s_q k s
                  | _ \<Rightarrow> b1 @ Sprintf_s_plus_v k v)
        in kvListFormat_loop keysAndValues (i + 2) b2
      else b)"
  by pat_completeness auto

termination
  by (relation "measure (\<lambda>(kvs, i, b). length kvs - i)") auto

declare kvListFormat_loop.simps [simp del]

definition kvListFormat :: "val list \<Rightarrow> string" where
  "kvListFormat keysAndValues = kvListFormat_loop keysAndValues 0 []"


section \<open>The caller resolver\<close>

definition autogeneratedFrameName :: string where
  "autogeneratedFrameName = ''<autogenerated>''"

text \<open>\<open>Caller skip\<close> is the file name that \<^verbatim>\<open>runtime.Caller(skip)\<close> reports inside
  \<^verbatim>\<open>framesToCaller\<close>.\<close>

function framesToCaller_loop :: "(int \<Rightarrow> string) \<Rightarrow> int \<Rightarrow> int" where
  "framesToCaller_loop Caller i =
     (if i < 3 then
        let file = Caller (i + 1)
        in if file \<noteq> autogeneratedFrameName then i
           else framesToCaller_loop Caller (i + 1)
      else 1)"
  by pat_completeness auto

termination
  by (relation "measure (\<lambda>(c, i). nat (3 - i))") auto

declare framesToCaller_loop.simps [simp del]

definition framesToCaller :: "(int \<Rightarrow> string) \<Rightarrow> int" where
  "framesToCaller Caller = framesToCaller_loop Caller 1"


section \<open>Assembling the pieces of a line\<close>

text \<open>A Go slice that may be nil: \<open>None\<close> is nil, and \<^verbatim>\<open>append\<close> of one element to nil
  gives a slice that is not nil.\<close>

fun append1 :: "'a list option \<Rightarrow> 'a \<Rightarrow> 'a list option" where
  "append1 None x = Some [x]"
| "append1 (Some xs) x = Some (xs @ [x])"

fun elems :: "'a list option \<Rightarrow> 'a list" where
  "elems None = []"
| "elems (Some xs) = xs"

fun concatenate_loop :: "string list \<Rightarrow> string list option \<Rightarrow> string list option" where
  "concatenate_loop [] args = args"
| "concatenate_loop (piece # pieces) args =
     (if piece \<noteq> '''' then
        let args1 = (if args \<noteq> None then append1 args '' '' else args)
        in concatenate_loop pieces (append1 args1 piece)
      else concatenate_loop pieces args)"

definition concatenate :: "string \<Rightarrow> string list \<Rightarrow> string list option" where
  "concatenate pfx pieces =
     concatenate_loop pieces (if pfx \<noteq> '''' then append1 None (pfx @ '':'') else None)"

section \<open>The deduplication engine\<close>

text \<open>
  The two loops of \<^verbatim>\<open>trimDuplicates\<close>, with the loop indices as Go has them (signed, counting
  down). \<open>seenKeys\<close> is the key set of the Go map: it holds the keys \<open>key_of k\<close>, and the
  map finds \<open>k\<close> when a \<^verbatim>\<open>==\<close> value was stored. A map access with a key of a type that
  is not comparable panics; an index outside a slice panics.
\<close>

function trimDuplicates_inner ::
  "val list \<Rightarrow> int \<Rightarrow> val set \<Rightarrow> val list \<Rightarrow> panic + (val set \<times> val list)" where
  "trimDuplicates_inner kvList i2 seenKeys out =
     (if i2 \<ge> 0 then
        if \<not> nat i2 < length kvList then Inl IndexOutOfRange
        else
          let k = kvList ! nat i2
          in if \<not> hashable k then Inl HashOfUnhashableType
             else if key_of k \<in> seenKeys then trimDuplicates_inner kvList (i2 - 2) seenKeys out
             else
               let seenKeys1 = insert (key_of k) seenKeys;
                   v = (if i2 + 1 < int (length kvList) then kvList ! nat (i2 + 1) else VNil)
               in trimDuplicates_inner kvList (i2 - 2) seenKeys1 ([k, v] @ out)
      else Inr (seenKeys, out))"
  by pat_completeness auto

termination
  by (relation "measure (\<lambda>(kvList, i2, seenKeys, out). nat (i2 + 1))") auto

declare trimDuplicates_inner.simps [simp del]

function trimDuplicates_outer ::
  "val list list \<Rightarrow> int \<Rightarrow> val set \<Rightarrow> val list list \<Rightarrow> panic + val list list" where
  "trimDuplicates_outer kvLists i seenKeys outs =
     (if i \<ge> 0 then
        if \<not> nat i < length kvLists \<or> \<not> nat i < length outs then Inl IndexOutOfRange
        else
          let kvList = kvLists ! nat i;
              n = int (length kvList)
          in case trimDuplicates_inner kvList (n - 2 + n mod 2) seenKeys [] of
               Inl p \<Rightarrow> Inl p
             | Inr (seenKeys1, out) \<Rightarrow>
                 trimDuplicates_outer kvLists (i - 1) seenKeys1 (outs[nat i := out])
      else Inr outs)"
  by pat_completeness auto

termination
  by (relation "measure (\<lambda>(kvLists, i, seenKeys, outs). nat (i + 1))") auto

declare trimDuplicates_outer.simps [simp del]

definition trimDuplicates :: "val list list \<Rightarrow> panic + val list list" where
  "trimDuplicates kvLists =
     trimDuplicates_outer kvLists (int (length kvLists) - 1) {}
       (replicate (length kvLists) [])"


section \<open>Slices and the logger state\<close>

text \<open>
  \<^verbatim>\<open>klogger.values\<close> is a slice: a pointer to a backing array with a length and a capacity.
  The store is the list of the arrays allocated so far, an address is a position in it,
  and \<open>None\<close> is the nil pointer. \<^verbatim>\<open>make\<close>, \<^verbatim>\<open>copy\<close> and \<^verbatim>\<open>append\<close> are the Go built-ins:
  \<^verbatim>\<open>append\<close> writes into the backing array when the capacity suffices and moves to a new
  array otherwise. How much room the new array gets is the runtime's choice, the parameter
  \<open>growcap\<close> (old capacity, needed length); it is at least the needed length.
\<close>

record slice =
  s_ptr :: "nat option"
  s_len :: nat
  s_cap :: nat

type_synonym store = "val list list"

definition nil_slice :: slice where
  "nil_slice = \<lparr>s_ptr = None, s_len = 0, s_cap = 0\<rparr>"

definition slice_elems :: "store \<Rightarrow> slice \<Rightarrow> val list" where
  "slice_elems h s = (case s_ptr s of None \<Rightarrow> [] | Some a \<Rightarrow> take (s_len s) (h ! a))"

definition make_slice :: "nat \<Rightarrow> store \<Rightarrow> slice \<times> store" where
  "make_slice n h = (\<lparr>s_ptr = Some (length h), s_len = n, s_cap = n\<rparr>, h @ [replicate n VNil])"

definition copy_slice :: "slice \<Rightarrow> slice \<Rightarrow> store \<Rightarrow> store" where
  "copy_slice dst src h =
     (let n = min (s_len dst) (s_len src)
      in case s_ptr dst of
           None \<Rightarrow> h
         | Some a \<Rightarrow> h[a := take n (slice_elems h src) @ drop n (h ! a)])"

definition append_slice ::
  "(nat \<Rightarrow> nat \<Rightarrow> nat) \<Rightarrow> slice \<Rightarrow> val list \<Rightarrow> store \<Rightarrow> slice \<times> store" where
  "append_slice growcap s xs h =
     (let n = s_len s + length xs
      in if n \<le> s_cap s then
           (case s_ptr s of
              None \<Rightarrow> (s, h)
            | Some a \<Rightarrow>
                (s\<lparr>s_len := n\<rparr>, h[a := take (s_len s) (h ! a) @ xs @ drop n (h ! a)]))
         else
           let c = max n (growcap (s_cap s) n)
           in (\<lparr>s_ptr = Some (length h), s_len = n, s_cap = c\<rparr>,
               h @ [slice_elems h s @ xs @ replicate (c - n) VNil]))"

record klogger =
  l_level :: go_int
  l_prefix :: string
  l_values :: slice

definition New :: klogger where
  "New = \<lparr>l_level = 0, l_prefix = '''', l_values = nil_slice\<rparr>"

definition copySlice :: "slice \<Rightarrow> store \<Rightarrow> slice \<times> store" where
  "copySlice inp h =
     (let (out, h1) = make_slice (s_len inp) h
      in (out, copy_slice out inp h1))"

definition clone :: "klogger \<Rightarrow> store \<Rightarrow> klogger \<times> store" where
  "clone l h =
     (let (vs, h1) = copySlice (l_values l) h
      in (\<lparr>l_level = l_level l, l_prefix = l_prefix l, l_values = vs\<rparr>, h1))"

definition V :: "klogger \<Rightarrow> go_int \<Rightarrow> store \<Rightarrow> klogger \<times> store" where
  "V l level h =
     (let (new, h1) = clone l h
      in (new\<lparr>l_level := level\<rparr>, h1))"

definition WithName :: "klogger \<Rightarrow> string \<Rightarrow> store \<Rightarrow> klogger \<times> store" where
  "WithName l name h =
     (let (new, h1) = clone l h;
          new1 = (if length (l_prefix l) > 0 then new\<lparr>l_prefix := l_prefix l @ ''/''\<rparr> else new)
      in (new1\<lparr>l_prefix := l_prefix new1 @ name\<rparr>, h1))"

definition WithValues ::
  "(nat \<Rightarrow> nat \<Rightarrow> nat) \<Rightarrow> klogger \<Rightarrow> val list \<Rightarrow> store \<Rightarrow> klogger \<times> store" where
  "WithValues growcap l kvList h =
     (let (new, h1) = clone l h;
          (vs, h2) = append_slice growcap (l_values new) kvList h1
      in (new\<lparr>l_values := vs\<rparr>, h2))"


section \<open>The sink and the dispatcher\<close>

text \<open>
  The sink is klog, which is not part of this package. Of klog the logger uses
  \<^verbatim>\<open>klog.V(level).Enabled()\<close>, here the predicate \<open>klog_V\<close> on klog's 32-bit level, and
  \<^verbatim>\<open>klog.InfoDepth\<close> and \<^verbatim>\<open>klog.ErrorDepth\<close>, which here append what they are given to
  \<open>klog_out\<close>. klog prints its arguments as \<^verbatim>\<open>fmt.Sprint\<close> does, and between strings
  \<^verbatim>\<open>fmt.Sprint\<close> adds nothing: the text of an entry is the concatenation of its arguments.
\<close>

datatype severity = InfoLog | ErrorLog

record entry =
  e_sev :: severity
  e_depth :: int
  e_args :: "string list"

definition entry_text :: "entry \<Rightarrow> string" where
  "entry_text e = concat (e_args e)"

record world =
  heap :: store
  klog_V :: "32 word \<Rightarrow> bool"
  klog_out :: "entry list"

definition InfoDepth :: "int \<Rightarrow> string list \<Rightarrow> world \<Rightarrow> world" where
  "InfoDepth depth args w =
     w\<lparr>klog_out := klog_out w @ [\<lparr>e_sev = InfoLog, e_depth = depth, e_args = args\<rparr>]\<rparr>"

definition ErrorDepth :: "int \<Rightarrow> string list \<Rightarrow> world \<Rightarrow> world" where
  "ErrorDepth depth args w =
     w\<lparr>klog_out := klog_out w @ [\<lparr>e_sev = ErrorLog, e_depth = depth, e_args = args\<rparr>]\<rparr>"

definition bind_p :: "panic + 'a \<Rightarrow> ('a \<Rightarrow> panic + 'b) \<Rightarrow> panic + 'b" where
  "bind_p m f = (case m of Inl p \<Rightarrow> Inl p | Inr x \<Rightarrow> f x)"

definition at_index :: "'a list \<Rightarrow> nat \<Rightarrow> panic + 'a" where
  "at_index xs i = (if i < length xs then Inr (xs ! i) else Inl IndexOutOfRange)"

text \<open>\<^verbatim>\<open>klog.Level(l.level)\<close> converts a 64-bit \<^verbatim>\<open>int\<close> to klog's \<^verbatim>\<open>int32\<close>: the low 32 bits.\<close>

definition Enabled :: "world \<Rightarrow> klogger \<Rightarrow> bool" where
  "Enabled w l = klog_V w (ucast (l_level l))"

definition Info ::
  "(int \<Rightarrow> string) \<Rightarrow> klogger \<Rightarrow> string \<Rightarrow> val list \<Rightarrow> world \<Rightarrow> panic + world" where
  "Info Caller l msg kvList w =
     (if Enabled w l then
        bind_p (trimDuplicates [slice_elems (heap w) (l_values l), kvList]) (\<lambda>trimmed.
        bind_p (at_index trimmed 0) (\<lambda>t0.
        bind_p (at_index trimmed 1) (\<lambda>t1.
          let fixedStr = kvListFormat t0;
              userStr = kvListFormat t1
          in Inr (InfoDepth (framesToCaller Caller)
                    (elems (concatenate (l_prefix l) [msg, fixedStr, userStr])) w))))
      else Inr w)"

definition Error ::
  "(int \<Rightarrow> string) \<Rightarrow> klogger \<Rightarrow> val \<Rightarrow> string \<Rightarrow> val list \<Rightarrow> world \<Rightarrow> panic + world" where
  "Error Caller l err msg kvList w =
     (let errStr = kvListFormat [VString ''err'', err]
      in bind_p (trimDuplicates [slice_elems (heap w) (l_values l), kvList]) (\<lambda>trimmed.
         bind_p (at_index trimmed 0) (\<lambda>t0.
         bind_p (at_index trimmed 1) (\<lambda>t1.
           let fixedStr = kvListFormat t0;
               userStr = kvListFormat t1
           in Inr (ErrorDepth (framesToCaller Caller)
                     (elems (concatenate (l_prefix l) [msg, errStr, fixedStr, userStr])) w)))))"

section \<open>Functions of the specification\<close>

text \<open>
  The functions of this section are not translated from the source. They say in the words
  of the specification what the loops above compute, and the theorems below compare the
  two.
\<close>

subsection \<open>Layers as lists of key/value pairs\<close>

text \<open>A layer read two entries at a time; a final key without a value is paired with
  \<open>pad\<close>.\<close>

fun pairs_with :: "val \<Rightarrow> val list \<Rightarrow> (val \<times> val) list" where
  "pairs_with pad [] = []"
| "pairs_with pad [k] = [(k, pad)]"
| "pairs_with pad (k # v # rest) = (k, v) # pairs_with pad rest"

abbreviation kv_pairs :: "val list \<Rightarrow> (val \<times> val) list" where
  "kv_pairs \<equiv> pairs_with VNil"

definition flat_pairs :: "(val \<times> val) list \<Rightarrow> val list" where
  "flat_pairs ps = concat (map (\<lambda>(k, v). [k, v]) ps)"

text \<open>The keys of a list of pairs and of a layer, as the map files them.\<close>

definition pair_keys :: "(val \<times> val) list \<Rightarrow> val set" where
  "pair_keys ps = key_of ` fst ` set ps"

definition layer_keys :: "val list \<Rightarrow> val set" where
  "layer_keys l = pair_keys (kv_pairs l)"

definition keys_hashable :: "val list \<Rightarrow> bool" where
  "keys_hashable l = (\<forall>p \<in> set (kv_pairs l). hashable (fst p))"

subsection \<open>Deduplication\<close>

text \<open>Of the pairs of one layer, drop those whose key is in \<open>later\<close> (the keys of the later
  layers) or comes again further on in the same layer, and keep all the others, in their
  order. Keys are compared as the map compares them.\<close>

fun keep_last :: "val set \<Rightarrow> (val \<times> val) list \<Rightarrow> (val \<times> val) list" where
  "keep_last later [] = []"
| "keep_last later (p # ps) =
     (if key_of (fst p) \<in> later \<or> key_of (fst p) \<in> pair_keys ps then keep_last later ps
      else p # keep_last later ps)"

fun spec_trim :: "val set \<Rightarrow> val list list \<Rightarrow> val list list" where
  "spec_trim seen [] = []"
| "spec_trim seen (l # ls) =
     flat_pairs (keep_last (seen \<union> \<Union> (layer_keys ` set ls)) (kv_pairs l)) # spec_trim seen ls"

text \<open>The two layers of a call, deduplicated: the accumulated values, without the keys of
  the call's own list, and the call's own list.\<close>

definition fixed_layer :: "val list \<Rightarrow> val list \<Rightarrow> val list" where
  "fixed_layer vals kvList = flat_pairs (keep_last (layer_keys kvList) (kv_pairs vals))"

definition user_layer :: "val list \<Rightarrow> val list" where
  "user_layer kvList = flat_pairs (keep_last {} (kv_pairs kvList))"

subsection \<open>Formatting\<close>

text \<open>One entry \<open>key=value\<close>: a string, an error and a \<^verbatim>\<open>fmt.Stringer\<close> quoted, anything
  else as \<^verbatim>\<open>%+v\<close> prints it.\<close>

fun spec_render :: "val \<times> val \<Rightarrow> string" where
  "spec_render (k, VString s) = verb_s k @ ''='' @ Quote s"
| "spec_render (k, VError i m) = verb_s k @ ''='' @ Quote m"
| "spec_render (k, VStringer i s) = verb_s k @ ''='' @ Quote s"
| "spec_render (k, v) = verb_s k @ ''='' @ verb_plus_v v"




text \<open>Strings joined with single spaces, nothing before the first.\<close>

fun join_sp :: "string list \<Rightarrow> string" where
  "join_sp [] = []"
| "join_sp (x # xs) = x @ concat (map (\<lambda>y. '' '' @ y) xs)"

text \<open>The pieces of a line that are written: the empty ones are left out, and the prefix
  comes with its colon unless it is empty.\<close>

definition spec_pieces :: "string \<Rightarrow> string list \<Rightarrow> string list" where
  "spec_pieces pfx pieces =
     filter (\<lambda>s. s \<noteq> []) ((if pfx \<noteq> [] then [pfx @ '':''] else []) @ pieces)"

subsection \<open>Well-formed slices and derivations\<close>

text \<open>A slice of a Go program points into an allocated array, or is nil.\<close>

definition valid_slice :: "store \<Rightarrow> slice \<Rightarrow> bool" where
  "valid_slice h s =
     (case s_ptr s of
        None \<Rightarrow> s_len s = 0 \<and> s_cap s = 0
      | Some a \<Rightarrow> a < length h \<and> s_cap s = length (h ! a) \<and> s_len s \<le> s_cap s)"

text \<open>The three mutators as data, to speak of an arbitrary chain of derivations.\<close>

datatype mutator = MV go_int | MWithName string | MWithValues "val list"

fun mutate ::
  "(nat \<Rightarrow> nat \<Rightarrow> nat) \<Rightarrow> mutator \<Rightarrow> klogger \<Rightarrow> store \<Rightarrow> klogger \<times> store" where
  "mutate growcap (MV level) l h = V l level h"
| "mutate growcap (MWithName name) l h = WithName l name h"
| "mutate growcap (MWithValues kvList) l h = WithValues growcap l kvList h"

fun derive ::
  "(nat \<Rightarrow> nat \<Rightarrow> nat) \<Rightarrow> mutator list \<Rightarrow> klogger \<Rightarrow> store \<Rightarrow> klogger \<times> store" where
  "derive growcap [] l h = (l, h)"
| "derive growcap (m # ms) l h =
     (let (l1, h1) = mutate growcap m l h in derive growcap ms l1 h1)"

text \<open>What a mutator adds to the accumulated values.\<close>

fun added_values :: "mutator \<Rightarrow> val list" where
  "added_values (MWithValues kvList) = kvList"
| "added_values m = []"


section \<open>The deduplication engine computes \<open>spec_trim\<close>\<close>

lemma length_pairs_with: "length (pairs_with pad xs) = (length xs + 1) div 2"
  by (induction pad xs rule: pairs_with.induct) auto

lemma pairs_with_nth:
  "j < length (pairs_with pad xs) \<Longrightarrow>
   pairs_with pad xs ! j =
     (xs ! (2 * j), if 2 * j + 1 < length xs then xs ! (2 * j + 1) else pad)"
proof (induction pad xs arbitrary: j rule: pairs_with.induct)
  case (1 pad)
  then show ?case by simp
next
  case (2 pad k)
  then show ?case by simp
next
  case (3 pad k v rest)
  then show ?case by (cases j) auto
qed

lemma pairs_with_snoc:
  "even (length xs) \<Longrightarrow> pairs_with pad (xs @ [k]) = pairs_with pad xs @ [(k, pad)]"
  by (induction pad xs rule: pairs_with.induct) auto

lemma flat_pairs_simps [simp]:
  "flat_pairs [] = []"
  "flat_pairs (p # ps) = fst p # snd p # flat_pairs ps"
  by (simp_all add: flat_pairs_def split: prod.splits)

lemma flat_pairs_append: "flat_pairs (ps @ qs) = flat_pairs ps @ flat_pairs qs"
  by (simp add: flat_pairs_def)

lemma pairs_with_flat [simp]: "pairs_with pad (flat_pairs ps) = ps"
  by (induction ps) auto

lemma pair_keys_simps [simp]:
  "pair_keys [] = {}"
  "pair_keys (p # ps) = insert (key_of (fst p)) (pair_keys ps)"
  "pair_keys (ps @ qs) = pair_keys ps \<union> pair_keys qs"
  by (auto simp: pair_keys_def)

lemma keep_last_snoc:
  "keep_last later (ps @ [p]) =
   keep_last (insert (key_of (fst p)) later) ps
     @ (if key_of (fst p) \<in> later then [] else [p])"
  by (induction ps) auto

lemma inner_take:
  "j \<le> length (kv_pairs kvList) \<Longrightarrow>
   trimDuplicates_inner kvList (2 * int j - 2) seen out =
     (if \<forall>p \<in> set (take j (kv_pairs kvList)). hashable (fst p)
      then Inr (seen \<union> pair_keys (take j (kv_pairs kvList)),
                flat_pairs (keep_last seen (take j (kv_pairs kvList))) @ out)
      else Inl HashOfUnhashableType)"
proof (induction j arbitrary: seen out)
  case 0
  then show ?case by (simp add: trimDuplicates_inner.simps)
next
  case (Suc j)
  let ?ps = "kv_pairs kvList"
  from Suc.prems have j: "j < length ?ps" by simp
  then have len: "2 * j < length kvList" by (simp add: length_pairs_with)
  have nth: "?ps ! j = (kvList ! (2 * j),
                if 2 * j + 1 < length kvList then kvList ! (2 * j + 1) else VNil)"
    using j by (rule pairs_with_nth)
  have tk: "take (Suc j) ?ps = take j ?ps @ [?ps ! j]"
    using j by (simp add: take_Suc_conv_app_nth)
  have idx: "2 * int (Suc j) - 2 = 2 * int j" by simp
  have nat1: "nat (2 * int j) = 2 * j" by simp
  have nat2: "nat (2 * int j + 1) = 2 * j + 1" by simp
  have lt: "(2 * int j + 1 < int (length kvList)) = (2 * j + 1 < length kvList)" by linarith
  from j have jle: "j \<le> length ?ps" by simp
  show ?case
    unfolding idx
    apply (subst trimDuplicates_inner.simps)
    apply (simp only: nat1 nat2 lt Let_def)
    using len nth Suc.IH [OF jle]
    apply (simp add: tk keep_last_snoc flat_pairs_append)
    apply (auto simp: insert_absorb)
    done
qed

lemma start_index:
  "int (length kvList) - 2 + int (length kvList) mod 2 = 2 * int (length (kv_pairs kvList)) - 2"
  by (simp add: length_pairs_with) presburger

lemma inner_all:
  "trimDuplicates_inner kvList (int (length kvList) - 2 + int (length kvList) mod 2) seen out =
     (if keys_hashable kvList
      then Inr (seen \<union> layer_keys kvList, flat_pairs (keep_last seen (kv_pairs kvList)) @ out)
      else Inl HashOfUnhashableType)"
  unfolding start_index
  by (subst inner_take) (auto simp: layer_keys_def keys_hashable_def)

lemma spec_trim_snoc:
  "spec_trim seen (ls @ [l]) =
   spec_trim (seen \<union> layer_keys l) ls @ [flat_pairs (keep_last seen (kv_pairs l))]"
  by (induction ls) (auto simp: Un_assoc Un_commute Un_left_commute)

lemma length_spec_trim [simp]: "length (spec_trim seen ls) = length ls"
  by (induction ls) auto

lemma outer_take:
  "m \<le> length kvLists \<Longrightarrow> length outs = length kvLists \<Longrightarrow>
   trimDuplicates_outer kvLists (int m - 1) seen outs =
     (if \<forall>l \<in> set (take m kvLists). keys_hashable l
      then Inr (spec_trim seen (take m kvLists) @ drop m outs)
      else Inl HashOfUnhashableType)"
proof (induction m arbitrary: seen outs)
  case 0
  then show ?case by (simp add: trimDuplicates_outer.simps)
next
  case (Suc m)
  from Suc.prems have m: "m < length kvLists" "m < length outs" by simp_all
  have tk: "take (Suc m) kvLists = take m kvLists @ [kvLists ! m]"
    using m by (simp add: take_Suc_conv_app_nth)
  have idx: "int (Suc m) - 1 = int m" by simp
  have mle: "m \<le> length kvLists" using m by simp
  have dr: "\<And>x. drop m (outs[m := x]) = x # drop (Suc m) outs"
    using m by (simp add: Cons_nth_drop_Suc [symmetric] upd_conv_take_nth_drop)
  have IH: "\<And>s x. trimDuplicates_outer kvLists (int m - 1) s (outs[m := x]) =
     (if \<forall>l \<in> set (take m kvLists). keys_hashable l
      then Inr (spec_trim s (take m kvLists) @ x # drop (Suc m) outs)
      else Inl HashOfUnhashableType)"
    using Suc.IH [OF mle] Suc.prems(2) by (simp add: dr)
  show ?case
    unfolding idx
    apply (subst trimDuplicates_outer.simps)
    using m
    apply (simp add: Let_def inner_all IH tk spec_trim_snoc)
    done
qed

lemma trimDuplicates_char:
  "trimDuplicates kvLists =
     (if \<forall>l \<in> set kvLists. keys_hashable l then Inr (spec_trim {} kvLists)
      else Inl HashOfUnhashableType)"
  unfolding trimDuplicates_def
  using outer_take [of "length kvLists" kvLists "replicate (length kvLists) []" "{}"]
  by simp

lemma subseq_keep_last: "subseq (keep_last later ps) ps"
  by (induction ps) auto

lemma keys_keep_last: "pair_keys (keep_last later ps) = pair_keys ps - later"
  by (induction ps) auto

lemma spec_trim_nth:
  "i < length ls \<Longrightarrow>
   spec_trim seen ls ! i =
     flat_pairs (keep_last (seen \<union> \<Union> (layer_keys ` set (drop (Suc i) ls))) (kv_pairs (ls ! i)))"
proof (induction ls arbitrary: i)
  case Nil
  then show ?case by simp
next
  case (Cons l ls)
  then show ?case by (cases i) auto
qed

section \<open>Claims about the deduplication engine\<close>

text \<open>
  Claim C1, as amended. For layers whose keys can all be hashed, \<^verbatim>\<open>trimDuplicates\<close> returns
  as many layers as it was given. With every layer read as key/value pairs (a final key
  without a value is paired with nil), output layer \<open>i\<close> is exactly \<open>keep_last\<close> of input
  layer \<open>i\<close>: the pairs whose key is neither a key of a strictly later layer nor the key of
  a later pair of the same layer, all of them and in their order. So each output layer is a
  subsequence of its input layer and has no key of a strictly later layer, the last pair of
  a key wins, and a key found nowhere else stays in its layer. Keys are compared by
  \<^verbatim>\<open>==\<close>. For the layers \<^verbatim>\<open>[["a",1,"b",2], ["b",3]]\<close> the result is \<^verbatim>\<open>[["a",1], ["b",3]]\<close>.
\<close>

theorem trimDuplicates_layers:
  assumes "\<forall>l \<in> set kvLists. keys_hashable l"
  shows "(\<exists>outs. trimDuplicates kvLists = Inr outs
           \<and> length outs = length kvLists
           \<and> (\<forall>i < length kvLists.
                 outs ! i =
                   flat_pairs (keep_last (\<Union> (layer_keys ` set (drop (Suc i) kvLists)))
                     (kv_pairs (kvLists ! i)))
               \<and> subseq (kv_pairs (outs ! i)) (kv_pairs (kvLists ! i))
               \<and> (\<forall>j. i < j \<and> j < length kvLists \<longrightarrow>
                      layer_keys (outs ! i) \<inter> layer_keys (kvLists ! j) = {})))
       \<and> trimDuplicates [[VString ''a'', VInt 1, VString ''b'', VInt 2], [VString ''b'', VInt 3]]
           = Inr [[VString ''a'', VInt 1], [VString ''b'', VInt 3]]"
proof (intro conjI exI)
  show "trimDuplicates kvLists = Inr (spec_trim {} kvLists)"
    using assms by (simp add: trimDuplicates_char)
  show "length (spec_trim {} kvLists) = length kvLists" by simp
  show "\<forall>i < length kvLists.
          spec_trim {} kvLists ! i =
            flat_pairs (keep_last (\<Union> (layer_keys ` set (drop (Suc i) kvLists)))
              (kv_pairs (kvLists ! i)))
        \<and> subseq (kv_pairs (spec_trim {} kvLists ! i)) (kv_pairs (kvLists ! i))
        \<and> (\<forall>j. i < j \<and> j < length kvLists \<longrightarrow>
               layer_keys (spec_trim {} kvLists ! i) \<inter> layer_keys (kvLists ! j) = {})"
  proof (intro allI impI conjI)
    fix i assume i: "i < length kvLists"
    let ?later = "\<Union> (layer_keys ` set (drop (Suc i) kvLists))"
    show eq: "spec_trim {} kvLists ! i = flat_pairs (keep_last ?later (kv_pairs (kvLists ! i)))"
      using i by (simp add: spec_trim_nth)
    have out: "kv_pairs (spec_trim {} kvLists ! i) = keep_last ?later (kv_pairs (kvLists ! i))"
      by (simp add: eq)
    show "subseq (kv_pairs (spec_trim {} kvLists ! i)) (kv_pairs (kvLists ! i))"
      unfolding out by (rule subseq_keep_last)
    fix j assume j: "i < j \<and> j < length kvLists"
    then have "drop (Suc i) kvLists ! (j - Suc i) = kvLists ! j"
      and "j - Suc i < length (drop (Suc i) kvLists)" by (simp, simp, arith)
    then have "kvLists ! j \<in> set (drop (Suc i) kvLists)"
      by (metis nth_mem)
    then have "layer_keys (kvLists ! j) \<subseteq> ?later" by auto
    moreover have "layer_keys (spec_trim {} kvLists ! i) \<inter> ?later = {}"
      unfolding layer_keys_def out keys_keep_last by auto
    ultimately show "layer_keys (spec_trim {} kvLists ! i) \<inter> layer_keys (kvLists ! j) = {}"
      by blast
  qed
  show "trimDuplicates [[VString ''a'', VInt 1, VString ''b'', VInt 2], [VString ''b'', VInt 3]]
           = Inr [[VString ''a'', VInt 1], [VString ''b'', VInt 3]]"
    by (simp add: trimDuplicates_char keys_hashable_def layer_keys_def)
qed

text \<open>The theorem at two layers with a key that comes twice in a layer, a final key without
  a value that the later layer has too, and the floats \<^verbatim>\<open>+0\<close> and \<^verbatim>\<open>-0\<close>, which are one key.\<close>

theorem trimDuplicates_layers_witness:
  \<open>keys_hashable [VString ''a'', VInt 1, VOther 7 ''%!s(float64=0)'' ''0'', VInt 2, VString ''a'', VInt 3, VString ''c'']
   \<and> keys_hashable [VString ''c'', VInt 4, VOther 7 ''%!s(float64=-0)'' ''-0'', VInt 5]
   \<and> trimDuplicates
        [[VString ''a'', VInt 1, VOther 7 ''%!s(float64=0)'' ''0'', VInt 2, VString ''a'', VInt 3, VString ''c''],
         [VString ''c'', VInt 4, VOther 7 ''%!s(float64=-0)'' ''-0'', VInt 5]]
       = Inr [[VString ''a'', VInt 3],
              [VString ''c'', VInt 4, VOther 7 ''%!s(float64=-0)'' ''-0'', VInt 5]]
   \<and> (\<exists>outs. trimDuplicates
        [[VString ''a'', VInt 1, VOther 7 ''%!s(float64=0)'' ''0'', VInt 2, VString ''a'', VInt 3, VString ''c''],
         [VString ''c'', VInt 4, VOther 7 ''%!s(float64=-0)'' ''-0'', VInt 5]]
              = Inr outs \<and> length outs = 2
              \<and> outs ! 0 = [VString ''a'', VInt 3])\<close>
proof -
  let ?l0 = "[VString ''a'', VInt 1, VOther 7 ''%!s(float64=0)'' ''0'', VInt 2, VString ''a'', VInt 3, VString ''c'']"
  let ?l1 = "[VString ''c'', VInt 4, VOther 7 ''%!s(float64=-0)'' ''-0'', VInt 5]"
  have h0: "keys_hashable ?l0" and h1: "keys_hashable ?l1"
    by (simp_all add: keys_hashable_def)
  then have h: "\<forall>l \<in> set [?l0, ?l1]. keys_hashable l" by simp
  have e: "trimDuplicates [?l0, ?l1] = Inr [[VString ''a'', VInt 3], ?l1]"
    by (simp add: trimDuplicates_def trimDuplicates_outer.simps trimDuplicates_inner.simps Let_def)
  from trimDuplicates_layers [OF h]
  obtain outs where o: "trimDuplicates [?l0, ?l1] = Inr outs" "length outs = length [?l0, ?l1]"
    "outs ! 0 = flat_pairs (keep_last (\<Union> (layer_keys ` set (drop (Suc 0) [?l0, ?l1]))) (kv_pairs ([?l0, ?l1] ! 0)))"
    by force
  from o(3) have "outs ! 0 = [VString ''a'', VInt 3]"
    by (simp add: layer_keys_def)
  with o(1,2) have "\<exists>outs. trimDuplicates [?l0, ?l1] = Inr outs \<and> length outs = 2
      \<and> outs ! 0 = [VString ''a'', VInt 3]"
    by (intro exI [of _ outs]) simp
  with h0 h1 e show ?thesis by blast
qed

text \<open>
  Claim C1 as it is written fails on three inputs. A key that is a slice makes the map access
  panic, so no layers are returned. A layer of odd length comes back one entry longer, with
  nil for the missing value, which is no filtering of the input layer. And of two pairs
  with the same key in one layer the first is removed, though no later layer has the key.
\<close>

theorem trimDuplicates_counterexample:
  "trimDuplicates [[VUncomparable ''[%!s(int=1)]'' ''[1]'', VInt 1]] = Inl HashOfUnhashableType
   \<and> trimDuplicates [[VString ''k'']] = Inr [[VString ''k'', VNil]]
   \<and> \<not> subseq [VString ''k'', VNil] [VString ''k'']
   \<and> trimDuplicates [[VString ''a'', VInt 1, VString ''a'', VInt 2]]
       = Inr [[VString ''a'', VInt 2]]"
  by (simp add: trimDuplicates_def trimDuplicates_outer.simps trimDuplicates_inner.simps Let_def)

section \<open>The value formatter computes the entries of the specification\<close>

lemma drop_pairs:
  "i < length kvs \<Longrightarrow>
   pairs_with pad (drop i kvs) =
     (kvs ! i, if i + 1 < length kvs then kvs ! (i + 1) else pad) # pairs_with pad (drop (i + 2) kvs)"
proof (cases "i + 1 < length kvs")
  case True
  assume "i < length kvs"
  then have "drop i kvs = kvs ! i # kvs ! (i + 1) # drop (i + 2) kvs"
    using True by (simp add: Cons_nth_drop_Suc)
  then show ?thesis using True by simp
next
  case False
  assume i: "i < length kvs"
  then have "drop i kvs = [kvs ! i]"
    using False by (metis Cons_nth_drop_Suc Suc_eq_plus1 drop_all linorder_not_less)
  then show ?thesis using False by simp
qed

lemma step_render:
  "(case v of VString s \<Rightarrow> b @ Sprintf_s_q k s | VError e m \<Rightarrow> b @ Sprintf_s_q k m
     | VStringer e s \<Rightarrow> b @ Sprintf_s_q k s | _ \<Rightarrow> b @ Sprintf_s_plus_v k v)
   = b @ spec_render (k, v)"
  by (cases v) (simp_all add: Sprintf_s_q_def Sprintf_s_plus_v_def)

lemma loop_pos:
  "i > 0 \<Longrightarrow>
   kvListFormat_loop kvs i b =
     b @ concat (map (\<lambda>p. '' '' @ spec_render p) (pairs_with (VString missingValue) (drop i kvs)))"
proof (induction "length kvs - i" arbitrary: i b rule: less_induct)
  case less
  show ?case
  proof (cases "i < length kvs")
    case True
    have "length kvs - (i + 2) < length kvs - i" using True by simp
    from less.hyps [OF this] have IH: "\<And>b. kvListFormat_loop kvs (i + 2) b =
       b @ concat (map (\<lambda>p. '' '' @ spec_render p) (pairs_with (VString missingValue) (drop (i + 2) kvs)))"
      by simp
    show ?thesis
      apply (subst kvListFormat_loop.simps)
      using True less.prems
      apply (simp only: Let_def step_render IH drop_pairs [OF True] if_True)
      apply simp
      done
  next
    case False
    then show ?thesis by (subst kvListFormat_loop.simps) simp
  qed
qed

lemma kvListFormat_spec:
  "kvListFormat kvs = join_sp (map spec_render (pairs_with (VString missingValue) kvs))"
proof (cases kvs)
  case Nil
  then show ?thesis by (simp add: kvListFormat_def kvListFormat_loop.simps)
next
  case (Cons k rest)
  then have pos: "0 < length kvs" by simp
  have dp: "pairs_with (VString missingValue) kvs =
     (kvs ! 0, if 0 + 1 < length kvs then kvs ! (0 + 1) else VString missingValue)
       # pairs_with (VString missingValue) (drop (0 + 2) kvs)"
    using drop_pairs [OF pos] by simp
  show ?thesis
    unfolding kvListFormat_def
    apply (subst kvListFormat_loop.simps)
    apply (subst dp)
    using pos
    apply (simp only: Let_def step_render if_True less_irrefl if_False)
    apply (simp add: loop_pos comp_def)
    done
qed



section \<open>Claims about the value formatter\<close>






section \<open>Claims about the caller resolver\<close>

text \<open>
  Claim C10. \<^verbatim>\<open>framesToCaller\<close> returns the first depth \<open>d\<close> of 1 and 2 for which the file
  name at stack depth \<open>d + 1\<close> is not \<^verbatim>\<open><autogenerated>\<close>, and 1 when there is none.
\<close>

theorem framesToCaller_first_candidate:
  "framesToCaller Caller =
     (if Caller 2 \<noteq> autogeneratedFrameName then 1
      else if Caller 3 \<noteq> autogeneratedFrameName then 2
      else 1)"
  by (simp add: framesToCaller_def framesToCaller_loop.simps Let_def)

section \<open>Claims about the logger state\<close>

text \<open>
  Claim C9. \<^verbatim>\<open>WithName\<close> makes the new prefix the name itself when the old prefix is empty
  and the old prefix, a slash and the name otherwise, whatever the name is (a name with a
  slash in it is taken as it is); the level is kept. \<^verbatim>\<open>New()\<close> has level 0, the empty prefix
  and no values, and \<^verbatim>\<open>New().WithName("a").WithName("b")\<close> has the prefix \<^verbatim>\<open>a/b\<close>.
\<close>

theorem WithName_prefix:
  "l_prefix (fst (WithName l name h)) =
     (if l_prefix l = '''' then name else l_prefix l @ ''/'' @ name)
   \<and> l_level (fst (WithName l name h)) = l_level l
   \<and> New = \<lparr>l_level = 0, l_prefix = '''', l_values = nil_slice\<rparr>
   \<and> slice_elems h (l_values New) = []
   \<and> l_prefix (fst (WithName (fst (WithName New ''a'' h)) ''b'' h')) = ''a/b''
   \<and> l_prefix (fst (WithName (fst (WithName l ''a/b'' h)) ''c'' h')) =
       (if l_prefix l = '''' then ''a/b/c'' else l_prefix l @ ''/a/b/c'')"
  by (simp add: WithName_def clone_def copySlice_def make_slice_def New_def Let_def
      slice_elems_def nil_slice_def split: prod.splits)

section \<open>The dispatcher in terms of the specification\<close>

lemma concatenate_loop_spec:
  "concat (elems (concatenate_loop pieces args)) =
     (case args of
        None \<Rightarrow> join_sp (filter (\<lambda>s. s \<noteq> []) pieces)
      | Some as \<Rightarrow> concat as @ concat (map (\<lambda>y. '' '' @ y) (filter (\<lambda>s. s \<noteq> []) pieces)))"
proof (induction pieces arbitrary: args)
  case Nil
  then show ?case by (cases args) auto
next
  case (Cons p ps)
  then show ?case by (cases args) (auto simp: Let_def)
qed

lemma concatenate_spec:
  "concat (elems (concatenate pfx pieces)) = join_sp (spec_pieces pfx pieces)"
  by (simp add: concatenate_def concatenate_loop_spec spec_pieces_def)

lemma trimDuplicates_two:
  "trimDuplicates [vals, kvList] =
     (if keys_hashable vals \<and> keys_hashable kvList
      then Inr [fixed_layer vals kvList, user_layer kvList]
      else Inl HashOfUnhashableType)"
  by (simp add: trimDuplicates_char fixed_layer_def user_layer_def)

lemma Info_char:
  "Info Caller l msg kvList w =
     (if Enabled w l then
        if keys_hashable (slice_elems (heap w) (l_values l)) \<and> keys_hashable kvList
        then Inr (InfoDepth (framesToCaller Caller)
               (elems (concatenate (l_prefix l)
                  [msg, kvListFormat (fixed_layer (slice_elems (heap w) (l_values l)) kvList),
                   kvListFormat (user_layer kvList)])) w)
        else Inl HashOfUnhashableType
      else Inr w)"
  by (simp add: Info_def trimDuplicates_two bind_p_def at_index_def)

lemma Error_char:
  "Error Caller l err msg kvList w =
     (if keys_hashable (slice_elems (heap w) (l_values l)) \<and> keys_hashable kvList
      then Inr (ErrorDepth (framesToCaller Caller)
             (elems (concatenate (l_prefix l)
                [msg, kvListFormat [VString ''err'', err],
                 kvListFormat (fixed_layer (slice_elems (heap w) (l_values l)) kvList),
                 kvListFormat (user_layer kvList)])) w)
      else Inl HashOfUnhashableType)"
  by (simp add: Error_def trimDuplicates_two bind_p_def at_index_def)

section \<open>Claims about the dispatcher\<close>

text \<open>
  Claim C4. \<^verbatim>\<open>Enabled()\<close> is klog's check \<^verbatim>\<open>klog.V(level).Enabled()\<close> at the logger's level,
  converted to klog's level type; so it is for the logger \<^verbatim>\<open>New().V(n)\<close> at level \<open>n\<close>. When
  \<^verbatim>\<open>Enabled()\<close> is false, \<^verbatim>\<open>Info\<close> returns with the world as it was: nothing is written to the
  sink, the store is unchanged, and no key is hashed (the call cannot panic).
\<close>

theorem Info_disabled_noop:
  "Enabled w l = klog_V w (ucast (l_level l))
   \<and> Enabled w (fst (V l n h)) = klog_V w (ucast n)
   \<and> (\<not> Enabled w l \<longrightarrow> Info Caller l msg kvList w = Inr w)"
  by (simp add: Info_def Enabled_def V_def clone_def split: prod.splits)

text \<open>The theorem at a sink that logs nothing, with a key that could not be hashed.\<close>

theorem Info_disabled_noop_witness:
  "\<not> Enabled \<lparr>heap = [], klog_V = (\<lambda>lv. False), klog_out = []\<rparr> New
   \<and> Info (\<lambda>i. ''main.go'') New ''m'' [VUncomparable ''[]'' ''[]'', VInt 1]
        \<lparr>heap = [], klog_V = (\<lambda>lv. False), klog_out = []\<rparr>
       = Inr \<lparr>heap = [], klog_V = (\<lambda>lv. False), klog_out = []\<rparr>"
proof -
  let ?w = "\<lparr>heap = [], klog_V = (\<lambda>lv. False), klog_out = []\<rparr>"
  have d: "\<not> Enabled ?w New" by (simp add: Enabled_def)
  with Info_disabled_noop [of ?w New 0 "[]" "\<lambda>i. ''main.go''" "''m''"
      "[VUncomparable ''[]'' ''[]'', VInt 1]"]
  show ?thesis by blast
qed

text \<open>
  Claim C3, as amended. For every logger state, error value, message and key/value arguments
  whose keys (of the accumulated values and of the call) can all be hashed, \<^verbatim>\<open>Error\<close> writes
  one entry with \<^verbatim>\<open>klog.ErrorDepth\<close>, at the depth the caller resolver gives and with the
  pieces prefix, message, \<^verbatim>\<open>err=...\<close>, accumulated values and call values, joined with
  spaces. It does so whatever klog's verbosity check \<open>v\<close> answers: \<^verbatim>\<open>Enabled()\<close> is not
  consulted.
\<close>

theorem Error_always_writes:
  assumes "keys_hashable (slice_elems (heap w) (l_values l))" and "keys_hashable kvList"
  shows "\<exists>e. e_sev e = ErrorLog
           \<and> e_depth e = framesToCaller Caller
           \<and> entry_text e =
               join_sp (spec_pieces (l_prefix l)
                 [msg, kvListFormat [VString ''err'', err],
                  kvListFormat (fixed_layer (slice_elems (heap w) (l_values l)) kvList),
                  kvListFormat (user_layer kvList)])
           \<and> Error Caller l err msg kvList w = Inr (w\<lparr>klog_out := klog_out w @ [e]\<rparr>)
           \<and> (\<forall>v. Error Caller l err msg kvList (w\<lparr>klog_V := v\<rparr>)
                  = Inr (w\<lparr>klog_V := v, klog_out := klog_out w @ [e]\<rparr>))"
  using assms
  by (intro exI [of _ "\<lparr>e_sev = ErrorLog, e_depth = framesToCaller Caller,
        e_args = elems (concatenate (l_prefix l)
                [msg, kvListFormat [VString ''err'', err],
                 kvListFormat (fixed_layer (slice_elems (heap w) (l_values l)) kvList),
                 kvListFormat (user_layer kvList)])\<rparr>"])
     (simp add: Error_char ErrorDepth_def entry_text_def concatenate_spec)

text \<open>The theorem at a sink whose check fails for every level.\<close>

theorem Error_always_writes_witness:
  \<open>keys_hashable (slice_elems (heap \<lparr>heap = [], klog_V = (\<lambda>lv. False), klog_out = []\<rparr>) (l_values New))
   \<and> keys_hashable [VString ''k'', VInt 1]
   \<and> \<not> Enabled \<lparr>heap = [], klog_V = (\<lambda>lv. False), klog_out = []\<rparr> New
   \<and> (\<exists>e. e_sev e = ErrorLog
          \<and> Error (\<lambda>i. ''main.go'') New (VError 0 ''boom'') ''msg'' [VString ''k'', VInt 1]
               \<lparr>heap = [], klog_V = (\<lambda>lv. False), klog_out = []\<rparr>
             = Inr \<lparr>heap = [], klog_V = (\<lambda>lv. False), klog_out = [e]\<rparr>)\<close>
proof -
  let ?w = "\<lparr>heap = [], klog_V = (\<lambda>lv. False), klog_out = []\<rparr>"
  have h1: "keys_hashable (slice_elems (heap ?w) (l_values New))"
    by (simp add: keys_hashable_def layer_keys_def slice_elems_def New_def nil_slice_def)
  have h2: "keys_hashable [VString ''k'', VInt 1]"
    by (simp add: keys_hashable_def layer_keys_def)
  have d: "\<not> Enabled ?w New" by (simp add: Enabled_def)
  from Error_always_writes [OF h1 h2, of "\<lambda>i. ''main.go''" "''msg''" "VError 0 ''boom''"]
  obtain e where "e_sev e = ErrorLog"
    and "Error (\<lambda>i. ''main.go'') New (VError 0 ''boom'') ''msg'' [VString ''k'', VInt 1] ?w
         = Inr (?w\<lparr>klog_out := klog_out ?w @ [e]\<rparr>)"
    by blast
  then have "\<exists>e. e_sev e = ErrorLog
          \<and> Error (\<lambda>i. ''main.go'') New (VError 0 ''boom'') ''msg'' [VString ''k'', VInt 1] ?w
             = Inr \<lparr>heap = [], klog_V = (\<lambda>lv. False), klog_out = [e]\<rparr>"
    by (intro exI [of _ e]) simp
  with h1 h2 d show ?thesis by blast
qed

text \<open>Claim C3 as it is written, for every key/value arguments, fails when a key is a
  slice: the map access in \<^verbatim>\<open>trimDuplicates\<close> panics before anything is written.\<close>

theorem Error_counterexample:
  "Error (\<lambda>i. ''main.go'') New (VError 0 ''boom'') ''msg'' [VUncomparable ''[a]'' ''[a]'', VInt 1]
     \<lparr>heap = [], klog_V = (\<lambda>lv. True), klog_out = []\<rparr>
   = Inl HashOfUnhashableType"
  by (simp add: Error_char keys_hashable_def layer_keys_def)

section \<open>Slices: every mutator allocates and never writes to an old array\<close>

lemma valid_slice_prefix:
  "valid_slice h s \<Longrightarrow> prefix h h' \<Longrightarrow> valid_slice h' s \<and> slice_elems h' s = slice_elems h s"
  by (auto simp: valid_slice_def slice_elems_def prefix_def nth_append split: option.splits)

lemma length_slice_elems: "valid_slice h s \<Longrightarrow> length (slice_elems h s) = s_len s"
  by (auto simp: valid_slice_def slice_elems_def split: option.splits)

lemma valid_nil_slice [simp]: "valid_slice h nil_slice"
  by (simp add: valid_slice_def nil_slice_def)

lemma elems_nil_slice [simp]: "slice_elems h nil_slice = []"
  by (simp add: slice_elems_def nil_slice_def)

lemma copySlice_valid:
  "valid_slice h inp \<Longrightarrow>
   copySlice inp h =
     (\<lparr>s_ptr = Some (length h), s_len = s_len inp, s_cap = s_len inp\<rparr>, h @ [slice_elems h inp])"
  by (auto simp: copySlice_def make_slice_def copy_slice_def valid_slice_def slice_elems_def
      nth_append split: option.splits)

lemma clone_valid:
  "valid_slice h (l_values l) \<Longrightarrow>
   clone l h =
     (l\<lparr>l_values := \<lparr>s_ptr = Some (length h), s_len = s_len (l_values l), s_cap = s_len (l_values l)\<rparr>\<rparr>,
      h @ [slice_elems h (l_values l)])"
  by (simp add: clone_def copySlice_valid)

lemma V_valid:
  "valid_slice h (l_values l) \<Longrightarrow>
   V l level h =
     (l\<lparr>l_level := level,
        l_values := \<lparr>s_ptr = Some (length h), s_len = s_len (l_values l), s_cap = s_len (l_values l)\<rparr>\<rparr>,
      h @ [slice_elems h (l_values l)])"
  by (simp add: V_def clone_valid)

lemma WithName_valid:
  "valid_slice h (l_values l) \<Longrightarrow>
   WithName l name h =
     (l\<lparr>l_prefix := (if l_prefix l = [] then name else l_prefix l @ ''/'' @ name),
        l_values := \<lparr>s_ptr = Some (length h), s_len = s_len (l_values l), s_cap = s_len (l_values l)\<rparr>\<rparr>,
      h @ [slice_elems h (l_values l)])"
  by (simp add: WithName_def clone_valid)

lemma WithValues_valid:
  "valid_slice h (l_values l) \<Longrightarrow>
   WithValues g l kvList h =
     (if kvList = [] then
        (l\<lparr>l_values := \<lparr>s_ptr = Some (length h), s_len = s_len (l_values l), s_cap = s_len (l_values l)\<rparr>\<rparr>,
         h @ [slice_elems h (l_values l)])
      else
        (l\<lparr>l_values := \<lparr>s_ptr = Some (Suc (length h)), s_len = s_len (l_values l) + length kvList,
              s_cap = max (s_len (l_values l) + length kvList)
                        (g (s_len (l_values l)) (s_len (l_values l) + length kvList))\<rparr>\<rparr>,
         h @ [slice_elems h (l_values l),
              slice_elems h (l_values l) @ kvList @
              replicate (max (s_len (l_values l) + length kvList)
                        (g (s_len (l_values l)) (s_len (l_values l) + length kvList))
                         - (s_len (l_values l) + length kvList)) VNil]))"
  by (auto simp: WithValues_def clone_valid append_slice_def Let_def slice_elems_def
      length_slice_elems [unfolded slice_elems_def] valid_slice_def list_update_append1
      split: option.splits)

lemma mutate_frame:
  assumes "valid_slice h (l_values l)" and "mutate g m l h = (l', h')"
  shows "prefix h h'"
    and "valid_slice h' (l_values l')"
    and "\<exists>a. s_ptr (l_values l') = Some a \<and> length h \<le> a"
    and "slice_elems h' (l_values l') = slice_elems h (l_values l) @ added_values m"
  using assms
  by (cases m; auto simp: V_valid WithName_valid WithValues_valid valid_slice_def slice_elems_def
      nth_append length_slice_elems [unfolded slice_elems_def valid_slice_def]
      split: if_splits option.splits)+

lemma derive_frame:
  "valid_slice h (l_values l) \<Longrightarrow> derive g ms l h = (l', h') \<Longrightarrow>
   prefix h h' \<and> valid_slice h' (l_values l')"
proof (induction ms arbitrary: l h)
  case Nil
  then show ?case by simp
next
  case (Cons m ms)
  obtain l1 h1 where m: "mutate g m l h = (l1, h1)" by (cases "mutate g m l h")
  with Cons.prems have d: "derive g ms l1 h1 = (l', h')" by simp
  from mutate_frame(1,2) [OF Cons.prems(1) m]
  have p: "prefix h h1" and v: "valid_slice h1 (l_values l1)" .
  from Cons.IH [OF v d] p show ?case by (meson prefix_order.trans)
qed

lemma valid_ptr_old: "valid_slice h s \<Longrightarrow> s_ptr s = Some a \<Longrightarrow> a < length h"
  by (simp add: valid_slice_def)

section \<open>Claims about the independence of logger states\<close>

text \<open>
  Claim C8. Every mutator (\<^verbatim>\<open>V\<close>, \<^verbatim>\<open>WithName\<close>, \<^verbatim>\<open>WithValues\<close>) returns a logger whose values
  are a copy in a new array: they are the parent's values, followed for \<^verbatim>\<open>WithValues\<close> by the
  new entries, and their array is not the array of the parent nor of any other logger that
  exists. The parent's values and a sibling's values read the same after the child is made
  and after any chain of further derivations from the child, and so do the child's own
  values; \<^verbatim>\<open>Info\<close> and \<^verbatim>\<open>Error\<close> on the parent write afterwards what they would have written
  before. So after \<^verbatim>\<open>child = parent.WithValues("x",1)\<close> the parent never has \<^verbatim>\<open>x\<close>.
\<close>

theorem mutators_independent:
  assumes "valid_slice h (l_values parent)" and "valid_slice h (l_values sibling)"
    and "mutate g m parent h = (child, h1)"
    and "derive g ms child h1 = (descendant, h2)"
  shows "slice_elems h1 (l_values child) = slice_elems h (l_values parent) @ added_values m
       \<and> s_ptr (l_values child) \<noteq> s_ptr (l_values parent)
       \<and> s_ptr (l_values child) \<noteq> s_ptr (l_values sibling)
       \<and> slice_elems h1 (l_values parent) = slice_elems h (l_values parent)
       \<and> slice_elems h2 (l_values parent) = slice_elems h (l_values parent)
       \<and> slice_elems h2 (l_values sibling) = slice_elems h (l_values sibling)
       \<and> slice_elems h2 (l_values child) = slice_elems h1 (l_values child)
       \<and> map_sum id klog_out (Info Caller parent msg kvList (w\<lparr>heap := h2\<rparr>))
           = map_sum id klog_out (Info Caller parent msg kvList (w\<lparr>heap := h\<rparr>))
       \<and> map_sum id klog_out (Error Caller parent err msg kvList (w\<lparr>heap := h2\<rparr>))
           = map_sum id klog_out (Error Caller parent err msg kvList (w\<lparr>heap := h\<rparr>))"
proof -
  note mf = mutate_frame [OF assms(1) assms(3)]
  note df = derive_frame [OF mf(2) assms(4)]
  from mf(1) df have p2: "prefix h h2" by (meson prefix_order.trans)
  from mf(3) obtain a where a: "s_ptr (l_values child) = Some a" "length h \<le> a" by blast
  have c1: "s_ptr (l_values child) \<noteq> s_ptr (l_values parent)"
    using a valid_ptr_old [OF assms(1)] by force
  have c2: "s_ptr (l_values child) \<noteq> s_ptr (l_values sibling)"
    using a valid_ptr_old [OF assms(2)] by force
  have c3: "slice_elems h1 (l_values parent) = slice_elems h (l_values parent)"
    using valid_slice_prefix [OF assms(1) mf(1)] by simp
  have c4: "slice_elems h2 (l_values parent) = slice_elems h (l_values parent)"
    using valid_slice_prefix [OF assms(1) p2] by simp
  have c5: "slice_elems h2 (l_values sibling) = slice_elems h (l_values sibling)"
    using valid_slice_prefix [OF assms(2) p2] by simp
  have c6: "slice_elems h2 (l_values child) = slice_elems h1 (l_values child)"
    using valid_slice_prefix [OF mf(2), of h2] df by simp
  have c7: "map_sum id klog_out (Info Caller parent msg kvList (w\<lparr>heap := h2\<rparr>))
           = map_sum id klog_out (Info Caller parent msg kvList (w\<lparr>heap := h\<rparr>))"
    by (simp add: Info_char c4 Enabled_def InfoDepth_def)
  have c8: "map_sum id klog_out (Error Caller parent err msg kvList (w\<lparr>heap := h2\<rparr>))
           = map_sum id klog_out (Error Caller parent err msg kvList (w\<lparr>heap := h\<rparr>))"
    by (simp add: Error_char c4 ErrorDepth_def)
  from mf(4) c1 c2 c3 c4 c5 c6 c7 c8 show ?thesis by blast
qed

text \<open>The theorem at \<^verbatim>\<open>New().WithValues("x",1)\<close> followed by \<^verbatim>\<open>WithValues("y",2)\<close> on the
  child, with an \<^verbatim>\<open>append\<close> that doubles the capacity, so that the child has room to spare.\<close>

lemma witness_chain:
  "mutate (\<lambda>c n. 2 * n) (MWithValues [VString ''x'', VInt 1]) New []
     = (\<lparr>l_level = 0, l_prefix = '''', l_values = \<lparr>s_ptr = Some 1, s_len = 2, s_cap = 4\<rparr>\<rparr>,
        [[], [VString ''x'', VInt 1, VNil, VNil]])"
  "derive (\<lambda>c n. 2 * n) [MWithValues [VString ''y'', VInt 2]]
     \<lparr>l_level = 0, l_prefix = '''', l_values = \<lparr>s_ptr = Some 1, s_len = 2, s_cap = 4\<rparr>\<rparr>
     [[], [VString ''x'', VInt 1, VNil, VNil]]
     = (\<lparr>l_level = 0, l_prefix = '''', l_values = \<lparr>s_ptr = Some 3, s_len = 4, s_cap = 8\<rparr>\<rparr>,
        [[], [VString ''x'', VInt 1, VNil, VNil], [VString ''x'', VInt 1],
         [VString ''x'', VInt 1, VString ''y'', VInt 2, VNil, VNil, VNil, VNil]])"
  by (simp_all add: WithValues_def clone_def copySlice_def make_slice_def copy_slice_def
      append_slice_def New_def nil_slice_def slice_elems_def Let_def numeral_eq_Suc)

theorem mutators_independent_witness:
  "valid_slice [] (l_values New)
   \<and> slice_elems [[], [VString ''x'', VInt 1, VNil, VNil]]
        \<lparr>s_ptr = Some 1, s_len = 2, s_cap = 4\<rparr> = [VString ''x'', VInt 1]
   \<and> slice_elems [[], [VString ''x'', VInt 1, VNil, VNil], [VString ''x'', VInt 1],
         [VString ''x'', VInt 1, VString ''y'', VInt 2, VNil, VNil, VNil, VNil]] (l_values New) = []
   \<and> slice_elems [[], [VString ''x'', VInt 1, VNil, VNil], [VString ''x'', VInt 1],
         [VString ''x'', VInt 1, VString ''y'', VInt 2, VNil, VNil, VNil, VNil]]
        \<lparr>s_ptr = Some 1, s_len = 2, s_cap = 4\<rparr> = [VString ''x'', VInt 1]"
proof -
  have v: "valid_slice [] (l_values New)" by (simp add: New_def)
  from mutators_independent [OF v v witness_chain(1) witness_chain(2),
      of "\<lambda>i. ''main.go''" "''m''" "[]" "\<lparr>heap = [], klog_V = (\<lambda>lv. True), klog_out = []\<rparr>" VNil]
  show ?thesis using v by (simp add: New_def)
qed

section \<open>Claims about totality\<close>

text \<open>
  Claim C7, as amended. \<^verbatim>\<open>Info\<close> returns (without a panic) exactly when the logger is not
  enabled or every key of the accumulated values and of the call can be hashed, and \<^verbatim>\<open>Error\<close>
  exactly when every such key can be hashed; the only panic of either is the hashing of a
  key of a type that is not comparable. \<^verbatim>\<open>Enabled\<close>, \<^verbatim>\<open>V\<close>, \<^verbatim>\<open>WithName\<close> and \<^verbatim>\<open>WithValues\<close> have
  no failing step (they are functions without an error result), and the mutators return a
  well-formed logger for a well-formed one. No operation returns an error value.
\<close>

theorem operations_total:
  "((\<exists>w'. Info Caller l msg kvList w = Inr w') =
      (Enabled w l \<longrightarrow> keys_hashable (slice_elems (heap w) (l_values l)) \<and> keys_hashable kvList))
   \<and> ((\<exists>w'. Error Caller l err msg kvList w = Inr w') =
      (keys_hashable (slice_elems (heap w) (l_values l)) \<and> keys_hashable kvList))
   \<and> (\<forall>p. Info Caller l msg kvList w = Inl p \<longrightarrow> p = HashOfUnhashableType)
   \<and> (\<forall>p. Error Caller l err msg kvList w = Inl p \<longrightarrow> p = HashOfUnhashableType)
   \<and> (valid_slice h (l_values l) \<longrightarrow>
        valid_slice (snd (mutate g m l h)) (l_values (fst (mutate g m l h))))"
proof -
  have "valid_slice h (l_values l) \<Longrightarrow>
        valid_slice (snd (mutate g m l h)) (l_values (fst (mutate g m l h)))"
    by (rule mutate_frame(2) [of h l g m]) simp_all
  then show ?thesis
    by (simp add: Info_char Error_char)
qed

text \<open>The theorem at an enabled logger and a call with an integer key, a nil value and a
  final key without a value.\<close>

theorem operations_total_witness:
  "Enabled \<lparr>heap = [], klog_V = (\<lambda>lv. True), klog_out = []\<rparr> New
   \<and> keys_hashable (slice_elems (heap \<lparr>heap = [], klog_V = (\<lambda>lv. True), klog_out = []\<rparr>) (l_values New))
   \<and> keys_hashable [VInt 7, VNil, VNil]
   \<and> (\<exists>w'. Info (\<lambda>i. ''main.go'') New ''m'' [VInt 7, VNil, VNil]
               \<lparr>heap = [], klog_V = (\<lambda>lv. True), klog_out = []\<rparr> = Inr w')
   \<and> (\<exists>w'. Error (\<lambda>i. ''main.go'') New VNil ''m'' [VInt 7, VNil, VNil]
               \<lparr>heap = [], klog_V = (\<lambda>lv. True), klog_out = []\<rparr> = Inr w')
   \<and> valid_slice [] (l_values New)
   \<and> valid_slice (snd (mutate (\<lambda>c n. n) (MV 3) New [])) (l_values (fst (mutate (\<lambda>c n. n) (MV 3) New [])))"
proof -
  let ?w = "\<lparr>heap = [], klog_V = (\<lambda>lv. True), klog_out = []\<rparr>"
  have e: "Enabled ?w New" by (simp add: Enabled_def)
  have h1: "keys_hashable (slice_elems (heap ?w) (l_values New))"
    by (simp add: keys_hashable_def layer_keys_def New_def)
  have h2: "keys_hashable [VInt 7, VNil, VNil]"
    by (simp add: keys_hashable_def layer_keys_def)
  have v: "valid_slice [] (l_values New)" by (simp add: New_def)
  from operations_total [of "\<lambda>i. ''main.go''" New "''m''" "[VInt 7, VNil, VNil]" ?w VNil
      "[]" "\<lambda>c n. n" "MV 3"] e h1 h2 v
  show ?thesis by blast
qed

text \<open>Claim C7 as it is written, for arbitrary key types, fails when a key is a map.\<close>

theorem operations_total_counterexample:
  "Enabled \<lparr>heap = [], klog_V = (\<lambda>lv. True), klog_out = []\<rparr> New
   \<and> Info (\<lambda>i. ''main.go'') New ''m'' [VUncomparable ''map[]'' ''map[]'', VInt 1]
        \<lparr>heap = [], klog_V = (\<lambda>lv. True), klog_out = []\<rparr>
      = Inl HashOfUnhashableType"
  by (simp add: Info_char Enabled_def keys_hashable_def layer_keys_def)

section \<open>The end-to-end example\<close>

lemma Quote_free_example:
  \<open>kvListFormat [VString ''a'', VInt 1] = ''a=1''\<close>
  \<open>kvListFormat [VString ''b'', VInt 2] = ''b=2''\<close>
  by (simp_all add: kvListFormat_spec fmt_int_def digits.simps)

text \<open>
  Claim C2. For the logger \<^verbatim>\<open>New().WithValues("a",1).WithName("svc")\<close>, the call
  \<^verbatim>\<open>Info("started", "b",2)\<close> at a sink whose check succeeds for level 0 writes one entry with
  \<^verbatim>\<open>klog.InfoDepth\<close>; its text is made of the pieces \<^verbatim>\<open>prefix+":"\<close>, the message, the formatted
  accumulated values and the formatted call values that are not empty, joined with single
  spaces, and it is exactly \<^verbatim>\<open>svc: started a=1 b=2\<close>.
\<close>

theorem Info_end_to_end:
  assumes "klog_V w 0"
    and "WithValues g New [VString ''a'', VInt 1] (heap w) = (l1, h1)"
    and "WithName l1 ''svc'' h1 = (l2, h2)"
  shows "\<exists>e. Info Caller l2 ''started'' [VString ''b'', VInt 2] (w\<lparr>heap := h2\<rparr>)
               = Inr (w\<lparr>heap := h2, klog_out := klog_out w @ [e]\<rparr>)
           \<and> e_sev e = InfoLog
           \<and> e_depth e = framesToCaller Caller
           \<and> slice_elems h2 (l_values l2) = [VString ''a'', VInt 1]
           \<and> entry_text e =
               join_sp (spec_pieces (l_prefix l2)
                 [''started'', kvListFormat [VString ''a'', VInt 1],
                  kvListFormat [VString ''b'', VInt 2]])
           \<and> entry_text e = ''svc: started a=1 b=2''"
proof -
  have v0: "valid_slice (heap w) (l_values New)" by (simp add: New_def)
  have m1: "mutate g (MWithValues [VString ''a'', VInt 1]) New (heap w) = (l1, h1)"
    using assms(2) by simp
  note f1 = mutate_frame [OF v0 m1]
  have m2: "mutate g (MWithName ''svc'') l1 h1 = (l2, h2)"
    using assms(3) by simp
  note f2 = mutate_frame [OF f1(2) m2]
  have vals: "slice_elems h2 (l_values l2) = [VString ''a'', VInt 1]"
    using f1(4) f2(4) by (simp add: New_def)
  have "l1 = fst (WithValues g New [VString ''a'', VInt 1] (heap w))"
    using assms(2) by simp
  then have "l_prefix l1 = l_prefix New \<and> l_level l1 = l_level New"
    by (simp add: WithValues_valid [OF v0])
  then have l1: "l_prefix l1 = '''' \<and> l_level l1 = 0"
    by (simp add: New_def)
  have "l2 = fst (WithName l1 ''svc'' h1)"
    using assms(3) by simp
  then have l2: "l_prefix l2 = ''svc'' \<and> l_level l2 = 0"
    using l1 by (simp add: WithName_valid [OF f1(2)])
  have en: "Enabled (w\<lparr>heap := h2\<rparr>) l2"
    using assms(1) l2 by (simp add: Enabled_def)
  have kh: "keys_hashable [VString ''a'', VInt 1]" "keys_hashable [VString ''b'', VInt 2]"
    by (simp_all add: keys_hashable_def layer_keys_def)
  have fl: "fixed_layer [VString ''a'', VInt 1] [VString ''b'', VInt 2] = [VString ''a'', VInt 1]"
    by (simp add: fixed_layer_def layer_keys_def)
  have ul: "user_layer [VString ''b'', VInt 2] = [VString ''b'', VInt 2]"
    by (simp add: user_layer_def)
  let ?e = "\<lparr>e_sev = InfoLog, e_depth = framesToCaller Caller,
        e_args = elems (concatenate (l_prefix l2)
                [''started'', kvListFormat [VString ''a'', VInt 1],
                 kvListFormat [VString ''b'', VInt 2]])\<rparr>"
  have "Info Caller l2 ''started'' [VString ''b'', VInt 2] (w\<lparr>heap := h2\<rparr>)
               = Inr (w\<lparr>heap := h2, klog_out := klog_out w @ [?e]\<rparr>)"
    using en kh by (simp add: Info_char vals fl ul InfoDepth_def)
  moreover have "entry_text ?e = join_sp (spec_pieces (l_prefix l2)
                 [''started'', kvListFormat [VString ''a'', VInt 1],
                  kvListFormat [VString ''b'', VInt 2]])"
    by (simp add: entry_text_def concatenate_spec)
  moreover have "entry_text ?e = ''svc: started a=1 b=2''"
    by (simp add: entry_text_def concatenate_spec l2 Quote_free_example spec_pieces_def)
  ultimately show ?thesis using vals by (intro exI [of _ ?e]) simp
qed

text \<open>The theorem at the empty store and a sink with verbosity 0.\<close>

theorem Info_end_to_end_witness:
  \<open>klog_V \<lparr>heap = [], klog_V = (\<lambda>lv. sint lv \<le> 0), klog_out = []\<rparr> 0
   \<and> (\<exists>e. entry_text e = ''svc: started a=1 b=2''
         \<and> Info (\<lambda>i. ''main.go'')
             (fst (WithName (fst (WithValues (\<lambda>c n. n) New [VString ''a'', VInt 1] [])) ''svc''
                     (snd (WithValues (\<lambda>c n. n) New [VString ''a'', VInt 1] []))))
             ''started'' [VString ''b'', VInt 2]
             \<lparr>heap = snd (WithName (fst (WithValues (\<lambda>c n. n) New [VString ''a'', VInt 1] [])) ''svc''
                     (snd (WithValues (\<lambda>c n. n) New [VString ''a'', VInt 1] []))),
              klog_V = (\<lambda>lv. sint lv \<le> 0), klog_out = []\<rparr>
           = Inr \<lparr>heap = snd (WithName (fst (WithValues (\<lambda>c n. n) New [VString ''a'', VInt 1] [])) ''svc''
                     (snd (WithValues (\<lambda>c n. n) New [VString ''a'', VInt 1] []))),
              klog_V = (\<lambda>lv. sint lv \<le> 0), klog_out = [e]\<rparr>)\<close>
proof -
  let ?w = "\<lparr>heap = [], klog_V = (\<lambda>lv. sint lv \<le> 0), klog_out = []\<rparr>"
  let ?r1 = "WithValues (\<lambda>c n. n) New [VString ''a'', VInt 1] []"
  let ?r2 = "WithName (fst ?r1) ''svc'' (snd ?r1)"
  have k: "klog_V ?w 0" by simp
  have a1: "WithValues (\<lambda>c n. n) New [VString ''a'', VInt 1] (heap ?w) = (fst ?r1, snd ?r1)" by simp
  have a2: "WithName (fst ?r1) ''svc'' (snd ?r1) = (fst ?r2, snd ?r2)" by simp
  from Info_end_to_end [OF k a1 a2, of "\<lambda>i. ''main.go''"]
  obtain e where "Info (\<lambda>i. ''main.go'') (fst ?r2) ''started'' [VString ''b'', VInt 2] (?w\<lparr>heap := snd ?r2\<rparr>)
               = Inr (?w\<lparr>heap := snd ?r2, klog_out := klog_out ?w @ [e]\<rparr>)"
    and "entry_text e = ''svc: started a=1 b=2''" by blast
  then have "\<exists>e. entry_text e = ''svc: started a=1 b=2''
      \<and> Info (\<lambda>i. ''main.go'') (fst ?r2) ''started'' [VString ''b'', VInt 2]
           \<lparr>heap = snd ?r2, klog_V = (\<lambda>lv. sint lv \<le> 0), klog_out = []\<rparr>
         = Inr \<lparr>heap = snd ?r2, klog_V = (\<lambda>lv. sint lv \<le> 0), klog_out = [e]\<rparr>"
    by (intro exI [of _ e]) simp
  with k show ?thesis by blast
qed

section \<open>Layers of odd length\<close>

lemma kvListFormat_flat: "kvListFormat (flat_pairs ps) = join_sp (map spec_render ps)"
  by (simp add: kvListFormat_spec)

lemma join_sp_snoc: "join_sp (xs @ [x]) = (if xs = [] then x else join_sp xs @ '' '' @ x)"
  by (cases xs) auto

lemma suffix_join_sp: "suffix x (join_sp (xs @ [x]))"
  by (simp add: join_sp_snoc suffix_def)

lemma join_sp_Cons2: "xs \<noteq> [] \<Longrightarrow> join_sp (y # xs) = (y @ '' '') @ join_sp xs"
  by (cases xs) simp_all

lemma sublist_join_sp: "x \<in> set xs \<Longrightarrow> sublist x (join_sp xs)"
proof (induction xs)
  case Nil
  then show ?case by simp
next
  case (Cons y xs)
  show ?case
  proof (cases "x = y")
    case True
    then show ?thesis by simp
  next
    case False
    with Cons.prems have m: "x \<in> set xs" by simp
    then have ne: "xs \<noteq> []" by auto
    from Cons.IH [OF m] obtain ps ss where "join_sp xs = ps @ x @ ss"
      unfolding sublist_def by blast
    then have "join_sp (y # xs) = ((y @ '' '') @ ps) @ x @ ss"
      by (simp only: join_sp_Cons2 [OF ne] append_assoc)
    then show ?thesis unfolding sublist_def by blast
  qed
qed

lemma kv_pairs_odd:
  "odd (length xs) \<Longrightarrow> kv_pairs xs = kv_pairs (butlast xs) @ [(last xs, VNil)]"
proof -
  assume o: "odd (length xs)"
  then have ne: "xs \<noteq> []" by auto
  then have xs: "xs = butlast xs @ [last xs]" by simp
  have "even (length (butlast xs))" using o ne by (simp add: length_butlast)
  from pairs_with_snoc [OF this, of VNil "last xs"] xs show ?thesis by simp
qed

lemma layer_ends:
  "odd (length xs) \<Longrightarrow> key_of (last xs) \<notin> later \<Longrightarrow>
   flat_pairs (keep_last later (kv_pairs xs)) =
     flat_pairs (keep_last (insert (key_of (last xs)) later) (kv_pairs (butlast xs))
       @ [(last xs, VNil)])"
  by (simp add: kv_pairs_odd keep_last_snoc)

lemma render_nil: "spec_render (k, VNil) = verb_s k @ ''=<nil>''"
  by simp

lemma format_ends:
  "suffix (verb_s k @ ''=<nil>'') (kvListFormat (flat_pairs (ps @ [(k, VNil)])))
   \<and> kvListFormat (flat_pairs (ps @ [(k, VNil)])) \<noteq> []"
proof -
  have "kvListFormat (flat_pairs (ps @ [(k, VNil)])) = join_sp (map spec_render ps @ [verb_s k @ ''=<nil>''])"
    by (simp add: kvListFormat_flat)
  then show ?thesis
    using suffix_join_sp [of "verb_s k @ ''=<nil>''" "map spec_render ps"]
    by (auto simp: join_sp_snoc)
qed

lemma text_suffix:
  "u \<noteq> [] \<Longrightarrow> suffix r u \<Longrightarrow> suffix r (join_sp (spec_pieces pfx (pieces @ [u])))"
proof -
  assume u: "u \<noteq> []" and r: "suffix r u"
  have "spec_pieces pfx (pieces @ [u]) = spec_pieces pfx pieces @ [u]"
    using u by (simp add: spec_pieces_def)
  then have "suffix u (join_sp (spec_pieces pfx (pieces @ [u])))"
    by (simp add: suffix_join_sp)
  with r show ?thesis by (meson suffix_order.trans)
qed

lemma text_sublist:
  "f \<noteq> [] \<Longrightarrow> suffix r f \<Longrightarrow> f \<in> set pieces \<Longrightarrow> sublist r (join_sp (spec_pieces pfx pieces))"
proof -
  assume f: "f \<noteq> []" and r: "suffix r f" and m: "f \<in> set pieces"
  then have "f \<in> set (spec_pieces pfx pieces)" by (simp add: spec_pieces_def)
  then have "sublist f (join_sp (spec_pieces pfx pieces))" by (rule sublist_join_sp)
  moreover from r have "sublist r f" by (rule suffix_imp_sublist)
  ultimately show ?thesis by (meson sublist_order.order.trans)
qed

lemma user_ends:
  assumes "odd (length kvList)"
  shows "suffix (verb_s (last kvList) @ ''=<nil>'') (kvListFormat (user_layer kvList))
   \<and> kvListFormat (user_layer kvList) \<noteq> []"
proof -
  have "user_layer kvList =
      flat_pairs (keep_last (insert (key_of (last kvList)) {}) (kv_pairs (butlast kvList))
        @ [(last kvList, VNil)])"
    unfolding user_layer_def using assms by (intro layer_ends) simp_all
  then show ?thesis by (simp only: format_ends simp_thms)
qed

lemma fixed_ends:
  assumes "odd (length vals)" and "key_of (last vals) \<notin> layer_keys kvList"
  shows "suffix (verb_s (last vals) @ ''=<nil>'') (kvListFormat (fixed_layer vals kvList))
   \<and> kvListFormat (fixed_layer vals kvList) \<noteq> []"
proof -
  have "fixed_layer vals kvList =
      flat_pairs (keep_last (insert (key_of (last vals)) (layer_keys kvList))
        (kv_pairs (butlast vals))
        @ [(last vals, VNil)])"
    unfolding fixed_layer_def using assms by (intro layer_ends)
  then show ?thesis by (simp only: format_ends simp_thms)
qed

text \<open>
  Claim C6, as amended. Take a call of \<^verbatim>\<open>Error\<close>, or of \<^verbatim>\<open>Info\<close> with the logger enabled,
  whose keys can all be hashed. When the call's key/value list has odd length, the call
  returns and the written text ends with the final key rendered \<^verbatim>\<open>key=<nil\<close>>. When the
  accumulated values have odd length and their final key is not (by \<^verbatim>\<open>==\<close>) a key of the
  call's list,
  the call returns and the written text contains that key rendered \<^verbatim>\<open>key=<nil\<close>>. In both
  layers the deduplication has paired the final key with nil before the formatter runs:
  what is formatted are the nil-padded pairs, and the \<^verbatim>\<open>(MISSING)\<close> placeholder of the
  formatter is not reached.
\<close>

theorem odd_layers_render_nil:
  assumes "keys_hashable (slice_elems (heap w) (l_values l))" and "keys_hashable kvList"
  shows "(odd (length kvList) \<longrightarrow>
           (\<exists>e. Error Caller l err msg kvList w = Inr (w\<lparr>klog_out := klog_out w @ [e]\<rparr>)
               \<and> suffix (verb_s (last kvList) @ ''=<nil>'') (entry_text e))
         \<and> (Enabled w l \<longrightarrow>
             (\<exists>e. Info Caller l msg kvList w = Inr (w\<lparr>klog_out := klog_out w @ [e]\<rparr>)
                 \<and> suffix (verb_s (last kvList) @ ''=<nil>'') (entry_text e))))
       \<and> (odd (length (slice_elems (heap w) (l_values l)))
            \<and> key_of (last (slice_elems (heap w) (l_values l))) \<notin> layer_keys kvList \<longrightarrow>
           (\<exists>e. Error Caller l err msg kvList w = Inr (w\<lparr>klog_out := klog_out w @ [e]\<rparr>)
               \<and> sublist (verb_s (last (slice_elems (heap w) (l_values l))) @ ''=<nil>'')
                    (entry_text e))
         \<and> (Enabled w l \<longrightarrow>
             (\<exists>e. Info Caller l msg kvList w = Inr (w\<lparr>klog_out := klog_out w @ [e]\<rparr>)
                 \<and> sublist (verb_s (last (slice_elems (heap w) (l_values l))) @ ''=<nil>'')
                      (entry_text e))))
       \<and> kvListFormat (fixed_layer (slice_elems (heap w) (l_values l)) kvList) =
           join_sp (map spec_render
             (keep_last (layer_keys kvList) (kv_pairs (slice_elems (heap w) (l_values l)))))
       \<and> kvListFormat (user_layer kvList) =
           join_sp (map spec_render (keep_last {} (kv_pairs kvList)))"
proof -
  let ?vals = "slice_elems (heap w) (l_values l)"
  let ?f = "kvListFormat (fixed_layer ?vals kvList)"
  let ?u = "kvListFormat (user_layer kvList)"
  let ?errStr = "kvListFormat [VString ''err'', err]"
  let ?ee = "\<lparr>e_sev = ErrorLog, e_depth = framesToCaller Caller,
        e_args = elems (concatenate (l_prefix l) [msg, ?errStr, ?f, ?u])\<rparr>"
  let ?ei = "\<lparr>e_sev = InfoLog, e_depth = framesToCaller Caller,
        e_args = elems (concatenate (l_prefix l) [msg, ?f, ?u])\<rparr>"
  have E: "Error Caller l err msg kvList w = Inr (w\<lparr>klog_out := klog_out w @ [?ee]\<rparr>)"
    using assms by (simp add: Error_char ErrorDepth_def)
  have I: "Enabled w l \<Longrightarrow> Info Caller l msg kvList w = Inr (w\<lparr>klog_out := klog_out w @ [?ei]\<rparr>)"
    using assms by (simp add: Info_char InfoDepth_def)
  have te: "entry_text ?ee = join_sp (spec_pieces (l_prefix l) ([msg, ?errStr, ?f] @ [?u]))"
    by (simp add: entry_text_def concatenate_spec)
  have ti: "entry_text ?ei = join_sp (spec_pieces (l_prefix l) ([msg, ?f] @ [?u]))"
    by (simp add: entry_text_def concatenate_spec)
  have user: "odd (length kvList) \<Longrightarrow>
      suffix (verb_s (last kvList) @ ''=<nil>'') (entry_text ?ee)
      \<and> suffix (verb_s (last kvList) @ ''=<nil>'') (entry_text ?ei)"
  proof -
    assume "odd (length kvList)"
    from user_ends [OF this] have s: "suffix (verb_s (last kvList) @ ''=<nil>'') ?u" and n: "?u \<noteq> []"
      by simp_all
    show ?thesis
      unfolding te ti by (intro conjI text_suffix [OF n s])
  qed
  have fixed: "odd (length ?vals) \<Longrightarrow> key_of (last ?vals) \<notin> layer_keys kvList \<Longrightarrow>
      sublist (verb_s (last ?vals) @ ''=<nil>'') (entry_text ?ee)
      \<and> sublist (verb_s (last ?vals) @ ''=<nil>'') (entry_text ?ei)"
  proof -
    assume "odd (length ?vals)" and "key_of (last ?vals) \<notin> layer_keys kvList"
    from fixed_ends [OF this] have s: "suffix (verb_s (last ?vals) @ ''=<nil>'') ?f" and n: "?f \<noteq> []"
      by simp_all
    show ?thesis
      unfolding te ti
      by (intro conjI; rule text_sublist [OF n s]) simp_all
  qed
  have c5: "?f = join_sp (map spec_render (keep_last (layer_keys kvList) (kv_pairs ?vals)))"
    by (simp add: fixed_layer_def kvListFormat_flat)
  have c6: "?u = join_sp (map spec_render (keep_last {} (kv_pairs kvList)))"
    by (simp add: user_layer_def kvListFormat_flat)
  from E I user fixed c5 c6 show ?thesis by blast
qed

text \<open>The theorem at the call \<^verbatim>\<open>Info("m", "a", 1, "k")\<close> on the root logger.\<close>

lemma odd_example:
  \<open>kvListFormat (user_layer [VString ''k'']) = ''k=<nil>''\<close>
  \<open>kvListFormat (fixed_layer [] [VString ''k'']) = []\<close>
  \<open>framesToCaller (\<lambda>i. ''main.go'') = 1\<close>
  by (simp_all add: user_layer_def fixed_layer_def kvListFormat_spec framesToCaller_def
      framesToCaller_loop.simps autogeneratedFrameName_def)

theorem odd_layers_render_nil_witness:
  \<open>keys_hashable (slice_elems (heap \<lparr>heap = [], klog_V = (\<lambda>lv. True), klog_out = []\<rparr>) (l_values New))
   \<and> keys_hashable [VString ''a'', VInt 1, VString ''k'']
   \<and> odd (length [VString ''a'', VInt 1, VString ''k''])
   \<and> Enabled \<lparr>heap = [], klog_V = (\<lambda>lv. True), klog_out = []\<rparr> New
   \<and> (\<exists>e. Info (\<lambda>i. ''main.go'') New ''m'' [VString ''a'', VInt 1, VString ''k'']
               \<lparr>heap = [], klog_V = (\<lambda>lv. True), klog_out = []\<rparr>
             = Inr \<lparr>heap = [], klog_V = (\<lambda>lv. True), klog_out = [e]\<rparr>
          \<and> suffix ''k=<nil>'' (entry_text e))\<close>
proof -
  let ?w = "\<lparr>heap = [], klog_V = (\<lambda>lv. True), klog_out = []\<rparr>"
  let ?kv = "[VString ''a'', VInt 1, VString ''k'']"
  have h1: "keys_hashable (slice_elems (heap ?w) (l_values New))"
    by (simp add: keys_hashable_def layer_keys_def New_def)
  have h2: "keys_hashable ?kv"
    by (simp add: keys_hashable_def layer_keys_def)
  have o: "odd (length ?kv)" by simp
  have e: "Enabled ?w New" by (simp add: Enabled_def)
  from odd_layers_render_nil [OF h1 h2, of "\<lambda>i. ''main.go''" VNil "''m''"] o e
  obtain x where "Info (\<lambda>i. ''main.go'') New ''m'' ?kv ?w = Inr (?w\<lparr>klog_out := klog_out ?w @ [x]\<rparr>)"
    and "suffix (verb_s (last ?kv) @ ''=<nil>'') (entry_text x)"
    by blast
  then have "\<exists>e. Info (\<lambda>i. ''main.go'') New ''m'' ?kv ?w
             = Inr \<lparr>heap = [], klog_V = (\<lambda>lv. True), klog_out = [e]\<rparr>
          \<and> suffix ''k=<nil>'' (entry_text e)"
    by (intro exI [of _ x]) simp
  with h1 h2 o e show ?thesis by blast
qed

text \<open>Claim C6 as it is written fails for \<^verbatim>\<open>Info("m", "k")\<close>: the text is \<^verbatim>\<open>m k=<nil\<close>>, and
  \<^verbatim>\<open>(MISSING)\<close> is not in it.\<close>

theorem odd_layers_counterexample:
  \<open>Info (\<lambda>i. ''main.go'') New ''m'' [VString ''k'']
     \<lparr>heap = [], klog_V = (\<lambda>lv. True), klog_out = []\<rparr>
   = Inr \<lparr>heap = [], klog_V = (\<lambda>lv. True),
          klog_out = [\<lparr>e_sev = InfoLog, e_depth = 1, e_args = [''m'', '' '', ''k=<nil>'']\<rparr>]\<rparr>
   \<and> entry_text \<lparr>e_sev = InfoLog, e_depth = 1, e_args = [''m'', '' '', ''k=<nil>'']\<rparr>
      = ''m k=<nil>''
   \<and> trimDuplicates [[], [VString ''k'']] = Inr [[], [VString ''k'', VNil]]\<close>
  by (simp add: Info_char Enabled_def keys_hashable_def layer_keys_def New_def odd_example
      InfoDepth_def concatenate_def entry_text_def trimDuplicates_two fixed_layer_def user_layer_def
      kvListFormat_spec)

end
